theory Spec2Isabelle
  imports Complex_Main "HOL-Library.Log_Nat"
begin

section \<open>Numbers\<close>

text \<open>
  The component computes with JavaScript numbers, the finite values of IEEE 754
  binary64.  A number is represented by the real it denotes, and every sum and
  difference the program takes is rounded to the nearest double, ties to even.
  Overflow, \<open>NaN\<close> and the infinities are not part of the model.
\<close>

text \<open>
  The smallest positive double is \<open>2\<close> to the power \<open>-emin\<close>; every double is a whole
  multiple of it.
\<close>

definition emin :: nat where
  "emin = 1074"

text \<open>Rounding to the nearest integer, a tie going to the even neighbour.\<close>

definition roundTiesToEven :: "real \<Rightarrow> int" where
  "roundTiesToEven q =
     (let f = \<lfloor>q\<rfloor>; d = q - of_int f
      in if d < 1 / 2 then f else if 1 / 2 < d then f + 1 else if even f then f else f + 1)"

text \<open>
  The spacing of the doubles around \<open>z\<close>, as a power of two times the smallest one: a
  double has 53 significant bits, so the magnitude of \<open>z\<close>, counted in smallest doubles,
  loses the bits beyond its leading 53.
\<close>

definition ulpShift :: "real \<Rightarrow> nat" where
  "ulpShift z = nat (bitlen \<lfloor>\<bar>z\<bar> * 2 ^ emin\<rfloor> - 53)"

text \<open>The double nearest to a real.\<close>

definition toDouble :: "real \<Rightarrow> real" where
  "toDouble z =
     of_int (roundTiesToEven (z * 2 ^ emin / 2 ^ ulpShift z)) * 2 ^ ulpShift z / 2 ^ emin"

text \<open>The operators \<open>+\<close> and \<open>-\<close> of the program.\<close>

definition js_add :: "real \<Rightarrow> real \<Rightarrow> real" where
  "js_add a b = toDouble (a + b)"

definition js_sub :: "real \<Rightarrow> real \<Rightarrow> real" where
  "js_sub a b = toDouble (a - b)"

text \<open>Truncation toward zero, the quotient that \<open>%\<close> uses.\<close>

definition js_trunc :: "real \<Rightarrow> int" where
  "js_trunc q = (if q < 0 then - \<lfloor>- q\<rfloor> else \<lfloor>q\<rfloor>)"

text \<open>
  The remainder operator \<open>n % d\<close> for a non-zero divisor: \<open>n - d * q\<close> where \<open>q\<close> is
  \<open>n / d\<close> truncated toward zero, so the result takes the sign of the dividend.  The
  remainder of two doubles is a double, so this operator does not round.
\<close>

definition js_rem :: "real \<Rightarrow> real \<Rightarrow> real" where
  "js_rem n d = n - d * of_int (js_trunc (n / d))"

text \<open>\<open>normalizeRotation\<close>, lines 47 to 51.\<close>

definition normalizeRotation :: "real \<Rightarrow> real" where
  "normalizeRotation value =
     (let normalized = js_rem value 360
      in if normalized < 0 then js_add normalized 360 else normalized)"

section \<open>Events, props and state\<close>

record Touch =
  clientX :: real
  clientY :: real

record MouseEvent =
  clientX :: real
  clientY :: real

record TouchEvent =
  touches :: "Touch list"

text \<open>
  The snapshot kept in \<open>dragStart\<close>, the object \<open>{ x, y, rotation }\<close>; the fields are
  prefixed here so that \<open>x\<close> and \<open>y\<close> stay free for variables.
\<close>

record DragStart =
  startX :: real
  startY :: real
  startRotation :: real

text \<open>
  What the closures of one render see: the \<open>rotation\<close> prop and the two pieces of
  state declared with \<open>useState\<close>.
\<close>

record Scope =
  rotation :: real
  isDragging :: bool
  dragStart :: DragStart

text \<open>A call of one of the two state setters.\<close>

datatype Update = SetIsDragging bool | SetDragStart DragStart

text \<open>
  What a handler does to the outside: whether it called \<open>e.preventDefault()\<close>, and the
  arguments of its \<open>onChange\<close> calls, in order.
\<close>

record Effects =
  preventDefault :: bool
  onChange :: "real list"

section \<open>Handlers\<close>

definition handleMouseDown :: "Scope \<Rightarrow> MouseEvent \<Rightarrow> Update list" where
  "handleMouseDown sc e =
     [SetIsDragging True,
      SetDragStart \<lparr>startX = MouseEvent.clientX e, startY = MouseEvent.clientY e,
                    startRotation = rotation sc\<rparr>]"

definition handleTouchStart :: "Scope \<Rightarrow> TouchEvent \<Rightarrow> Update list" where
  "handleTouchStart sc e =
     (case touches e of
        [touch] \<Rightarrow>
          [SetIsDragging True,
           SetDragStart \<lparr>startX = Touch.clientX touch, startY = Touch.clientY touch,
                         startRotation = rotation sc\<rparr>]
      | _ \<Rightarrow> [])"

definition handleMouseMove :: "Scope \<Rightarrow> MouseEvent \<Rightarrow> real list" where
  "handleMouseMove sc e =
     (if \<not> isDragging sc then []
      else let deltaX = js_sub (MouseEvent.clientX e) (startX (dragStart sc));
               newRotation = normalizeRotation (js_add (startRotation (dragStart sc)) deltaX)
           in [newRotation])"

definition handleTouchMove :: "Scope \<Rightarrow> TouchEvent \<Rightarrow> Effects" where
  "handleTouchMove sc e =
     (if \<not> isDragging sc \<or> length (touches e) \<noteq> 1
      then \<lparr>preventDefault = False, onChange = []\<rparr>
      else let touch = hd (touches e);
               deltaX = js_sub (Touch.clientX touch) (startX (dragStart sc));
               newRotation = normalizeRotation (js_add (startRotation (dragStart sc)) deltaX)
           in \<lparr>preventDefault = True, onChange = [newRotation]\<rparr>)"

definition handleMouseUp :: "Update list" where
  "handleMouseUp = [SetIsDragging False]"

definition handleTouchEnd :: "Update list" where
  "handleTouchEnd = [SetIsDragging False]"

definition handleKeyDown :: "Scope \<Rightarrow> string \<Rightarrow> Effects" where
  "handleKeyDown sc key =
     (if key = ''ArrowLeft''
      then \<lparr>preventDefault = True, onChange = [normalizeRotation (js_sub (rotation sc) 15)]\<rparr>
      else if key = ''ArrowRight''
      then \<lparr>preventDefault = True, onChange = [normalizeRotation (js_add (rotation sc) 15)]\<rparr>
      else \<lparr>preventDefault = False, onChange = []\<rparr>)"

text \<open>The \<open>onClick\<close> closures of the two buttons, lines 190 and 241.\<close>

definition onClickCounterClockwise :: "Scope \<Rightarrow> real list" where
  "onClickCounterClockwise sc = [normalizeRotation (js_sub (rotation sc) 15)]"

definition onClickClockwise :: "Scope \<Rightarrow> real list" where
  "onClickClockwise sc = [normalizeRotation (js_add (rotation sc) 15)]"

section \<open>Direct numeric entry\<close>

text \<open>
  \<open>parseInt\<close> with no radix, following the steps of the language standard.  Strings are
  lists of 8-bit characters, so the white space recognised is the part of the standard's
  list that lies below 256: TAB, LF, VT, FF, CR, SP and NBSP.  \<open>None\<close> stands for \<open>NaN\<close>,
  and the two zeros are not told apart.
\<close>

definition isWhiteSpace :: "char \<Rightarrow> bool" where
  "isWhiteSpace c = (of_char c \<in> {9, 10, 11, 12, 13, 32, 160 :: nat})"

definition digitValue :: "char \<Rightarrow> nat option" where
  "digitValue c =
     (let n = of_char c :: nat
      in if 48 \<le> n \<and> n \<le> 57 then Some (n - 48)
         else if 97 \<le> n \<and> n \<le> 122 then Some (n - 87)
         else if 65 \<le> n \<and> n \<le> 90 then Some (n - 55)
         else None)"

definition isRadixDigit :: "nat \<Rightarrow> char \<Rightarrow> bool" where
  "isRadixDigit R c = (case digitValue c of Some v \<Rightarrow> v < R | None \<Rightarrow> False)"

definition mathInt :: "nat \<Rightarrow> string \<Rightarrow> nat" where
  "mathInt R Z = foldl (\<lambda>acc c. acc * R + (case digitValue c of Some v \<Rightarrow> v | None \<Rightarrow> 0)) 0 Z"

definition parseInt :: "string \<Rightarrow> int option" where
  "parseInt string =
     (let S = dropWhile isWhiteSpace string;
          sign = (if S \<noteq> [] \<and> hd S = CHR ''-'' then - 1 else 1);
          S = (if S \<noteq> [] \<and> (hd S = CHR ''+'' \<or> hd S = CHR ''-'') then tl S else S);
          stripPrefix = (take 2 S = ''0x'' \<or> take 2 S = ''0X'');
          R = (if stripPrefix then 16 else 10);
          S = (if stripPrefix then drop 2 S else S);
          Z = takeWhile (isRadixDigit R) S
      in if Z = [] then None else Some (sign * int (mathInt R Z)))"

text \<open>
  \<open>handleInputChange\<close>, lines 129 to 133, applied to \<open>e.target.value\<close>.  The operator
  \<open>||\<close> replaces the falsy results \<open>NaN\<close> and \<open>0\<close> by \<open>0\<close>.  A digit string too long
  for an exact number is rounded by \<open>parseInt\<close>; rounding is monotone and keeps \<open>359\<close>,
  so the clamped result is the one computed here.
\<close>

definition handleInputChange :: "string \<Rightarrow> real list" where
  "handleInputChange target_value =
     (let value = (case parseInt target_value of
                     None \<Rightarrow> 0
                   | Some v \<Rightarrow> if v = 0 then 0 else v);
          normalizedValue = max 0 (min 359 \<bar>value\<bar>)
      in [of_int normalizedValue])"

section \<open>The listeners on the document\<close>

text \<open>
  A listener registered on the document is one of the four handlers of some render,
  that is, a closure over that render's scope.
\<close>

datatype Handler = HandleMouseMove | HandleMouseUp | HandleTouchMove | HandleTouchEnd

record Listener =
  eventType :: string
  handler :: Handler
  closure :: Scope

definition addEventListener :: "Listener \<Rightarrow> Listener list \<Rightarrow> Listener list" where
  "addEventListener l doc = (if l \<in> set doc then doc else doc @ [l])"

definition removeEventListener :: "Listener \<Rightarrow> Listener list \<Rightarrow> Listener list" where
  "removeEventListener l doc = remove1 l doc"

text \<open>The four registrations of lines 101 to 106, for the render with scope \<open>sc\<close>.\<close>

definition dragListeners :: "Scope \<Rightarrow> Listener list" where
  "dragListeners sc =
     [\<lparr>eventType = ''mousemove'', handler = HandleMouseMove, closure = sc\<rparr>,
      \<lparr>eventType = ''mouseup'', handler = HandleMouseUp, closure = sc\<rparr>,
      \<lparr>eventType = ''touchmove'', handler = HandleTouchMove, closure = sc\<rparr>,
      \<lparr>eventType = ''touchend'', handler = HandleTouchEnd, closure = sc\<rparr>]"

text \<open>
  The body of the effect, lines 100 to 114: it returns the document's listeners and,
  when it registered any, the scope whose clean-up function is to run later.
\<close>

definition effect :: "Scope \<Rightarrow> Listener list \<Rightarrow> Listener list \<times> Scope option" where
  "effect sc doc =
     (if isDragging sc then (fold addEventListener (dragListeners sc) doc, Some sc)
      else (doc, None))"

text \<open>The clean-up function returned at lines 108 to 113.\<close>

definition cleanup :: "Scope \<Rightarrow> Listener list \<Rightarrow> Listener list" where
  "cleanup sc doc = fold removeEventListener (dragListeners sc) doc"

section \<open>The mounted component\<close>

record Component =
  mounted :: bool
  scope :: Scope
  document :: "Listener list"
  pendingCleanup :: "Scope option"

definition mount :: "real \<Rightarrow> Component" where
  "mount r =
     \<lparr>mounted = True,
      scope = \<lparr>rotation = r, isDragging = False,
               dragStart = \<lparr>startX = 0, startY = 0, startRotation = 0\<rparr>\<rparr>,
      document = [],
      pendingCleanup = None\<rparr>"

fun applyUpdate :: "Update \<Rightarrow> Scope \<Rightarrow> Scope" where
  "applyUpdate (SetIsDragging b) sc = sc\<lparr>isDragging := b\<rparr>"
| "applyUpdate (SetDragStart d) sc = sc\<lparr>dragStart := d\<rparr>"

fun isSetDragStart :: "Update \<Rightarrow> bool" where
  "isSetDragStart (SetDragStart d) = True"
| "isSetDragStart (SetIsDragging b) = False"

text \<open>
  The render that follows a handler's state updates.  The effect depends on
  \<open>[isDragging, dragStart]\<close>: it runs again when \<open>isDragging\<close> changed value or when
  \<open>setDragStart\<close> was called (always with a fresh object), after the clean-up of the
  previous run.  An unmounted component ignores state updates.
\<close>

definition commit :: "Update list \<Rightarrow> Component \<Rightarrow> Component" where
  "commit us c =
     (if \<not> mounted c then c
      else let sc' = fold applyUpdate us (scope c);
               depsChanged = (isDragging sc' \<noteq> isDragging (scope c) \<or> list_ex isSetDragStart us)
           in if \<not> depsChanged then c\<lparr>scope := sc'\<rparr>
              else let doc = (case pendingCleanup c of
                                None \<Rightarrow> document c
                              | Some old \<Rightarrow> cleanup old (document c));
                       (doc', cl) = effect sc' doc
                   in c\<lparr>scope := sc', document := doc', pendingCleanup := cl\<rparr>)"

text \<open>Events that reach the document while listeners may be registered there.\<close>

datatype DocEvent = MouseMove MouseEvent | MouseUp | TouchMove TouchEvent | TouchEnd

fun eventName :: "DocEvent \<Rightarrow> string" where
  "eventName (MouseMove e) = ''mousemove''"
| "eventName MouseUp = ''mouseup''"
| "eventName (TouchMove e) = ''touchmove''"
| "eventName TouchEnd = ''touchend''"

definition noEffects :: Effects where
  "noEffects = \<lparr>preventDefault = False, onChange = []\<rparr>"

text \<open>Calling a registered handler: its state updates and its effects.\<close>

fun invoke :: "Handler \<Rightarrow> Scope \<Rightarrow> DocEvent \<Rightarrow> Update list \<times> Effects" where
  "invoke HandleMouseMove sc (MouseMove e) =
     ([], \<lparr>preventDefault = False, onChange = handleMouseMove sc e\<rparr>)"
| "invoke HandleTouchMove sc (TouchMove e) = ([], handleTouchMove sc e)"
| "invoke HandleMouseUp sc MouseUp = (handleMouseUp, noEffects)"
| "invoke HandleTouchEnd sc TouchEnd = (handleTouchEnd, noEffects)"
| "invoke h sc ev = ([], noEffects)"

definition dispatchEvent :: "DocEvent \<Rightarrow> Listener list \<Rightarrow> Update list \<times> Effects" where
  "dispatchEvent ev doc =
     (let rs = map (\<lambda>l. invoke (handler l) (closure l) ev)
                   (filter (\<lambda>l. eventType l = eventName ev) doc)
      in (concat (map fst rs),
          \<lparr>preventDefault = list_ex (\<lambda>r. preventDefault (snd r)) rs,
           onChange = concat (map (\<lambda>r. onChange (snd r)) rs)\<rparr>))"

text \<open>
  What can happen to a mounted component, in its compact presentation where all the
  controls below are rendered: the user acts on one of its controls, an event reaches
  the document, the parent renders it with a new \<open>rotation\<close>, or it is unmounted.
  Each event is handled to the end, render and effect included, before the next one.
  The controls of an unmounted component receive no events.
\<close>

datatype Event =
    MouseDown MouseEvent
  | TouchStart TouchEvent
  | KeyDown string
  | ClickCounterClockwise
  | ClickClockwise
  | InputChange string
  | Document DocEvent
  | SetRotation real
  | Unmount

fun onControl :: "Event \<Rightarrow> Component \<Rightarrow> Component \<times> Effects" where
  "onControl (MouseDown e) c = (commit (handleMouseDown (scope c) e) c, noEffects)"
| "onControl (TouchStart e) c = (commit (handleTouchStart (scope c) e) c, noEffects)"
| "onControl (KeyDown key) c = (c, handleKeyDown (scope c) key)"
| "onControl ClickCounterClockwise c =
     (c, \<lparr>preventDefault = False, onChange = onClickCounterClockwise (scope c)\<rparr>)"
| "onControl ClickClockwise c =
     (c, \<lparr>preventDefault = False, onChange = onClickClockwise (scope c)\<rparr>)"
| "onControl (InputChange v) c =
     (c, \<lparr>preventDefault = False, onChange = handleInputChange v\<rparr>)"
| "onControl (SetRotation r) c = (c\<lparr>scope := (scope c)\<lparr>rotation := r\<rparr>\<rparr>, noEffects)"
| "onControl Unmount c =
     (c\<lparr>mounted := False,
        document := (case pendingCleanup c of
                       None \<Rightarrow> document c
                     | Some old \<Rightarrow> cleanup old (document c)),
        pendingCleanup := None\<rparr>, noEffects)"
| "onControl (Document ev) c = (c, noEffects)"

fun step :: "Event \<Rightarrow> Component \<Rightarrow> Component \<times> Effects" where
  "step (Document ev) c =
     (let (us, eff) = dispatchEvent ev (document c) in (commit us c, eff))"
| "step ev c = (if mounted c then onControl ev c else (c, noEffects))"

text \<open>A sequence of events: the final component and the \<open>onChange\<close> calls made on the way.\<close>

fun run :: "Event list \<Rightarrow> Component \<Rightarrow> Component \<times> real list" where
  "run [] c = (c, [])"
| "run (ev # evs) c =
     (let (c', eff) = step ev c; (c'', out) = run evs c' in (c'', onChange eff @ out))"

section \<open>Notions used to state the properties\<close>

text \<open>
  The state of a component agrees with the document: while it is mounted and dragging,
  the listeners registered are the four of the render whose clean-up is pending, and
  that render saw the current drag snapshot; otherwise nothing is registered.
\<close>

definition consistent :: "Component \<Rightarrow> bool" where
  "consistent c =
     (if mounted c \<and> isDragging (scope c)
      then (case pendingCleanup c of
              None \<Rightarrow> False
            | Some sc \<Rightarrow> isDragging sc \<and> dragStart sc = dragStart (scope c) \<and>
                         document c = dragListeners sc)
      else document c = [] \<and> pendingCleanup c = None)"

text \<open>
  Events that begin a drag gesture (a touch-start does with exactly one touch), and
  events that leave the dragging state.
\<close>

fun startsDrag :: "Event \<Rightarrow> bool" where
  "startsDrag (MouseDown e) = True"
| "startsDrag (TouchStart e) = (length (touches e) = 1)"
| "startsDrag ev = False"

fun endsDrag :: "Event \<Rightarrow> bool" where
  "endsDrag (Document MouseUp) = True"
| "endsDrag (Document TouchEnd) = True"
| "endsDrag Unmount = True"
| "endsDrag ev = False"

fun gestureStart :: "Event \<Rightarrow> real option" where
  "gestureStart (MouseDown e) = Some (MouseEvent.clientX e)"
| "gestureStart (TouchStart e) =
     (case touches e of [touch] \<Rightarrow> Some (Touch.clientX touch) | _ \<Rightarrow> None)"
| "gestureStart ev = None"

fun pointerX :: "DocEvent \<Rightarrow> real option" where
  "pointerX (MouseMove e) = Some (MouseEvent.clientX e)"
| "pointerX (TouchMove e) =
     (case touches e of [touch] \<Rightarrow> Some (Touch.clientX touch) | _ \<Rightarrow> None)"
| "pointerX ev = None"

text \<open>
  A drag session with baseline coordinate \<open>x0\<close> and baseline rotation \<open>r0\<close> is in
  progress; and its opposite, no drag in progress.
\<close>

definition inDrag :: "Component \<Rightarrow> real \<Rightarrow> real \<Rightarrow> bool" where
  "inDrag c x0 r0 =
     (consistent c \<and> mounted c \<and> isDragging (scope c) \<and>
      startX (dragStart (scope c)) = x0 \<and> startRotation (dragStart (scope c)) = r0)"

definition idle :: "Component \<Rightarrow> bool" where
  "idle c = (consistent c \<and> \<not> (mounted c \<and> isDragging (scope c)))"

text \<open>
  The reading of a text as a decimal integer at its start: an optional sign, then the
  longest run of decimal digits, which must not be empty.  This is what the
  specification calls the leading integer of the text.
\<close>

definition isDecimalDigit :: "char \<Rightarrow> bool" where
  "isDecimalDigit c = (48 \<le> (of_char c :: nat) \<and> (of_char c :: nat) \<le> 57)"






text \<open>
  The text continues, after white space and an optional sign, with \<open>0x\<close> or \<open>0X\<close>:
  the mark of a hexadecimal numeral.
\<close>

fun unsignedText :: "string \<Rightarrow> string" where
  "unsignedText [] = []"
| "unsignedText (c # cs) = (if c = CHR ''-'' \<or> c = CHR ''+'' then cs else c # cs)"

definition hexPrefixed :: "string \<Rightarrow> bool" where
  "hexPrefixed s =
     (let b = unsignedText (dropWhile isWhiteSpace s) in take 2 b = ''0x'' \<or> take 2 b = ''0X'')"

text \<open>The first character of a text has a given property; and the letter that marks hexadecimal.\<close>

fun startsWith :: "(char \<Rightarrow> bool) \<Rightarrow> string \<Rightarrow> bool" where
  "startsWith P [] = False"
| "startsWith P (c # cs) = P c"


text \<open>What is registered on the document: the event type and the handler of each listener.\<close>

definition registrations :: "Component \<Rightarrow> (string \<times> Handler) list" where
  "registrations c = map (\<lambda>l. (eventType l, handler l)) (document c)"

text \<open>
  A real that is a finite double: rounding leaves it as it is, and it lies below the
  overflow threshold.
\<close>

definition isDouble :: "real \<Rightarrow> bool" where
  "isDouble z = (toDouble z = z \<and> \<bar>z\<bar> < 2 ^ 1024)"





text \<open>
  The reading of a text as a hexadecimal integer: an optional sign, the mark \<open>0x\<close> or
  \<open>0X\<close>, then the longest run of hexadecimal digits, which must not be empty.
\<close>

definition isHexDigit :: "char \<Rightarrow> bool" where
  "isHexDigit c =
     (isDecimalDigit c \<or> (97 \<le> (of_char c :: nat) \<and> (of_char c :: nat) \<le> 102) \<or>
      (65 \<le> (of_char c :: nat) \<and> (of_char c :: nat) \<le> 70))"

definition hexDigitValue :: "char \<Rightarrow> nat" where
  "hexDigitValue c =
     (if isDecimalDigit c then of_char c - 48
      else if 97 \<le> (of_char c :: nat) then of_char c - 87
      else of_char c - 55)"

fun leadingHexDigits :: "string \<Rightarrow> string" where
  "leadingHexDigits [] = []"
| "leadingHexDigits (c # cs) = (if isHexDigit c then c # leadingHexDigits cs else [])"

fun hexadecimalValue :: "nat \<Rightarrow> string \<Rightarrow> nat" where
  "hexadecimalValue n [] = n"
| "hexadecimalValue n (c # cs) = hexadecimalValue (16 * n + hexDigitValue c) cs"

definition hexadecimalPrefix :: "string \<Rightarrow> int option" where
  "hexadecimalPrefix s =
     (let hs = leadingHexDigits (drop 2 (unsignedText s))
      in if hs = [] then None
         else Some ((if startsWith (\<lambda>c. c = CHR ''-'') s then - 1 else 1) *
                      int (hexadecimalValue 0 hs)))"

section \<open>Rounding to a double\<close>

lemma roundTiesToEven_of_int: "roundTiesToEven (of_int k) = k"
  by (simp add: roundTiesToEven_def)

lemma roundTiesToEven_bounds: "\<lfloor>q\<rfloor> \<le> roundTiesToEven q \<and> roundTiesToEven q \<le> \<lceil>q\<rceil>"
proof (cases "q = of_int \<lfloor>q\<rfloor>")
  case True
  then have "q - of_int \<lfloor>q\<rfloor> = 0" by simp
  then have "roundTiesToEven q = \<lfloor>q\<rfloor>" by (simp add: roundTiesToEven_def)
  then show ?thesis by (simp add: floor_le_ceiling)
next
  case False
  then have "\<lceil>q\<rceil> = \<lfloor>q\<rfloor> + 1" by (simp add: ceiling_altdef)
  then show ?thesis by (simp add: roundTiesToEven_def Let_def)
qed

lemma roundTiesToEven_abs:
  assumes "\<bar>q\<bar> < of_int K"
  shows "\<bar>roundTiesToEven q\<bar> \<le> K"
proof -
  from assms have "- of_int K < q" "q < of_int K" by linarith+
  then have "- K \<le> \<lfloor>q\<rfloor>" "\<lceil>q\<rceil> \<le> K"
    by (simp_all add: le_floor_iff ceiling_le_iff)
  with roundTiesToEven_bounds [of q] show ?thesis by linarith
qed

lemma ulpShift_zero: "ulpShift 0 = 0"
  by (simp add: ulpShift_def)

lemma toDouble_zero: "toDouble 0 = 0"
  by (simp add: toDouble_def roundTiesToEven_def)

lemma ulpShift_grid:
  assumes "\<bar>z\<bar> * 2 ^ emin = of_int N * 2 ^ e" "0 < N" "N < 2 ^ 53"
  shows "ulpShift z \<le> e"
proof -
  have "of_int N * 2 ^ e = (of_int (N * 2 ^ e) :: real)" by simp
  with assms(1) have "\<bar>z\<bar> * 2 ^ emin = of_int (N * 2 ^ e)" by (simp only:)
  then have "\<lfloor>\<bar>z\<bar> * 2 ^ emin\<rfloor> = N * 2 ^ e" by (simp only: floor_of_int)
  moreover have "bitlen (N * 2 ^ e) = bitlen N + int e" using assms(2) by simp
  moreover have "bitlen N \<le> 53" using assms(3) by (simp add: bitlen_le_iff_power)
  ultimately show ?thesis by (simp add: ulpShift_def)
qed

lemma toDouble_grid:
  assumes "z * 2 ^ emin = of_int M * 2 ^ e" "\<bar>M\<bar> < 2 ^ 53"
  shows "toDouble z = z"
proof (cases "M = 0")
  case True
  with assms(1) have "z = 0" by simp
  then show ?thesis by (simp add: toDouble_zero)
next
  case False
  have "\<bar>z\<bar> * 2 ^ emin = \<bar>z * 2 ^ emin\<bar>" by (simp add: abs_mult)
  also have "\<dots> = \<bar>of_int M * 2 ^ e\<bar>" by (simp only: assms(1))
  also have "\<dots> = of_int \<bar>M\<bar> * 2 ^ e" by (simp add: abs_mult)
  finally have "ulpShift z \<le> e" using False assms(2) by (intro ulpShift_grid [where N = "\<bar>M\<bar>"]) simp_all
  then obtain j where e: "e = ulpShift z + j" by (auto simp: le_iff_add)
  have "z * 2 ^ emin / 2 ^ ulpShift z = of_int (M * 2 ^ j)"
    by (simp add: assms(1) e power_add)
  then have "roundTiesToEven (z * 2 ^ emin / 2 ^ ulpShift z) = M * 2 ^ j"
    by (simp only: roundTiesToEven_of_int)
  then have "toDouble z = of_int (M * 2 ^ j) * 2 ^ ulpShift z / 2 ^ emin"
    by (simp add: toDouble_def)
  also have "\<dots> = (of_int M * 2 ^ e) / 2 ^ emin" by (simp add: e power_add)
  also have "\<dots> = z * 2 ^ emin / 2 ^ emin" by (simp only: assms(1))
  also have "\<dots> = z" by simp
  finally show ?thesis .
qed

lemma toDouble_of_int:
  assumes "\<bar>n\<bar> < 2 ^ 53"
  shows "toDouble (of_int n) = of_int n"
  using assms by (rule toDouble_grid [where M = n and e = emin, OF refl])

lemma bitlen_pos_less:
  assumes "0 < n" shows "real_of_int n + 1 \<le> 2 ^ nat (bitlen n)"
proof -
  from bitlen_bounds [OF assms] have "n < 2 ^ nat (bitlen n)" by simp
  then have "n + 1 \<le> 2 ^ nat (bitlen n)" by simp
  then have "real_of_int (n + 1) \<le> real_of_int (2 ^ nat (bitlen n))" by (simp only: of_int_le_iff)
  then show ?thesis by simp
qed

lemma isDouble_round_bound: "\<bar>z * 2 ^ emin / 2 ^ ulpShift z\<bar> < 2 ^ 53"
proof -
  define n where "n = \<lfloor>\<bar>z\<bar> * 2 ^ emin\<rfloor>"
  have n0: "0 \<le> n" unfolding n_def by simp
  have lt: "\<bar>z\<bar> * 2 ^ emin < of_int n + 1" unfolding n_def by linarith
  have s: "ulpShift z = nat (bitlen n - 53)" by (simp add: ulpShift_def n_def)
  have a: "\<bar>z * 2 ^ emin / 2 ^ ulpShift z\<bar> = \<bar>z\<bar> * 2 ^ emin / 2 ^ ulpShift z"
    by (simp add: abs_mult)
  show ?thesis
  proof (cases "n = 0")
    case True
    then have "ulpShift z = 0" by (simp add: s)
    moreover from True lt have "\<bar>z\<bar> * 2 ^ emin < 1" by simp
    moreover have "(1::real) < 2 ^ 53" by simp
    ultimately show ?thesis unfolding a by simp
  next
    case False
    with n0 have pos: "0 < n" by simp
    from bitlen_pos_less [OF pos] lt have b: "\<bar>z\<bar> * 2 ^ emin < 2 ^ nat (bitlen n)" by linarith
    show ?thesis
    proof (cases "bitlen n \<le> 53")
      case True
      then have "ulpShift z = 0" by (simp add: s)
      moreover from True have "nat (bitlen n) \<le> 53" by simp
      then have "(2::real) ^ nat (bitlen n) \<le> 2 ^ 53" by (intro power_increasing) simp_all
      ultimately show ?thesis unfolding a using b by simp
    next
      case False
      then have e: "nat (bitlen n) = 53 + ulpShift z" by (simp add: s)
      have "\<bar>z\<bar> * 2 ^ emin / 2 ^ ulpShift z < 2 ^ nat (bitlen n) / 2 ^ ulpShift z"
        using b by (simp add: divide_strict_right_mono)
      also have "\<dots> = 2 ^ 53" unfolding e by (simp add: power_add)
      finally show ?thesis unfolding a .
    qed
  qed
qed

lemma isDouble_gridD:
  assumes "isDouble z"
  obtains M e where "z * 2 ^ emin = of_int M * 2 ^ e" "\<bar>M\<bar> < 2 ^ 53"
proof -
  define R where "R = roundTiesToEven (z * 2 ^ emin / 2 ^ ulpShift z)"
  have "\<bar>z * 2 ^ emin / 2 ^ ulpShift z\<bar> < of_int (2 ^ 53)"
    using isDouble_round_bound [of z] by simp
  then have R: "\<bar>R\<bar> \<le> 2 ^ 53" unfolding R_def by (rule roundTiesToEven_abs)
  from assms have "z = of_int R * 2 ^ ulpShift z / 2 ^ emin"
    by (simp add: isDouble_def toDouble_def R_def)
  then have "z * 2 ^ emin = of_int R * 2 ^ ulpShift z / 2 ^ emin * 2 ^ emin" by simp
  then have z: "z * 2 ^ emin = of_int R * 2 ^ ulpShift z" by simp
  show ?thesis
  proof (cases "\<bar>R\<bar> = 2 ^ 53")
    case True
    then consider "R = 2 ^ 53" | "R = - (2 ^ 53)" by linarith
    then show ?thesis
    proof cases
      case 1
      then have "z * 2 ^ emin = of_int (2 ^ 52) * 2 ^ Suc (ulpShift z)" by (simp add: z)
      then show ?thesis by (rule that) simp
    next
      case 2
      then have "z * 2 ^ emin = of_int (- (2 ^ 52)) * 2 ^ Suc (ulpShift z)" by (simp add: z)
      then show ?thesis by (rule that) simp
    qed
  next
    case False
    with R have "\<bar>R\<bar> < 2 ^ 53" by simp
    with z show ?thesis by (rule that)
  qed
qed

lemma isDouble_rem360:
  assumes "isDouble y" "0 \<le> y"
  shows "isDouble (y - 360 * of_int \<lfloor>y / 360\<rfloor>)"
proof -
  define q where "q = \<lfloor>y / 360\<rfloor>"
  define r where "r = y - 360 * of_int q"
  have q0: "0 \<le> q" using assms(2) by (simp add: q_def)
  have "of_int q \<le> y / 360" "y / 360 < of_int q + 1" unfolding q_def by linarith+
  then have r0: "0 \<le> r" and r360: "r < 360" unfolding r_def by (simp_all add: field_simps)
  have ry: "r \<le> y" unfolding r_def using q0 by simp
  from assms(1) obtain M e where M: "y * 2 ^ emin = of_int M * 2 ^ e" "\<bar>M\<bar> < 2 ^ 53"
    by (rule isDouble_gridD)
  have "toDouble r = r"
  proof (cases "e \<le> emin")
    case True
    then obtain j where j: "emin = e + j" by (auto simp: le_iff_add)
    define M' where "M' = M - 360 * q * 2 ^ j"
    have "r * 2 ^ emin = y * 2 ^ emin - 360 * of_int q * 2 ^ emin"
      by (simp add: r_def algebra_simps)
    also have "\<dots> = of_int M * 2 ^ e - 360 * of_int q * 2 ^ (e + j)"
      by (simp only: M(1) j [symmetric])
    also have "\<dots> = of_int M' * 2 ^ e" by (simp add: M'_def power_add algebra_simps)
    finally have g: "r * 2 ^ emin = of_int M' * 2 ^ e" .
    have "0 \<le> r * 2 ^ emin" using r0 by simp
    then have "0 \<le> real_of_int M' * 2 ^ e" by (simp only: g)
    then have "0 \<le> real_of_int M' * 2 ^ e / 2 ^ e" by (rule divide_nonneg_pos) simp
    then have "0 \<le> M'" by simp
    moreover have "M' \<le> M" unfolding M'_def using q0 by simp
    ultimately have "\<bar>M'\<bar> < 2 ^ 53" using M(2) by simp
    with g show ?thesis by (rule toDouble_grid)
  next
    case False
    then obtain j where j: "e = emin + j" by (auto simp: not_le less_iff_Suc_add)
    have "y * 2 ^ emin = of_int (M * 2 ^ j) * 2 ^ emin" by (simp add: M(1) j power_add)
    then have y: "y = of_int (M * 2 ^ j)" by simp
    define R where "R = M * 2 ^ j - 360 * q"
    have rR: "r = of_int R" by (simp add: r_def y R_def)
    with r0 r360 have "0 \<le> R" "R < 360" by simp_all
    then have "\<bar>R\<bar> < 2 ^ 53" by simp
    then show ?thesis unfolding rR by (rule toDouble_of_int)
  qed
  moreover have "\<bar>r\<bar> < 2 ^ 1024" using r0 r360 by simp
  ultimately show ?thesis by (simp add: isDouble_def r_def q_def)
qed

lemma ulpShift_binade:
  assumes "2 ^ (52 + s) \<le> \<bar>z\<bar> * 2 ^ emin" "\<bar>z\<bar> * 2 ^ emin < 2 ^ (53 + s)"
  shows "ulpShift z = s"
proof -
  define n where "n = \<lfloor>\<bar>z\<bar> * 2 ^ emin\<rfloor>"
  have "of_int (2 ^ (52 + s)) \<le> \<bar>z\<bar> * 2 ^ emin" using assms(1) by simp
  then have lo: "2 ^ (52 + s) \<le> n" unfolding n_def by (simp only: le_floor_iff)
  have "\<bar>z\<bar> * 2 ^ emin < of_int (2 ^ (53 + s))" using assms(2) by simp
  then have hi: "n < 2 ^ (53 + s)" unfolding n_def by (simp only: floor_less_iff)
  have nn: "nat (int (53 + s)) = 53 + s" "nat (int (53 + s)) - 1 = 52 + s" by simp_all
  from hi have "bitlen n \<le> int (53 + s)" by (simp only: bitlen_le_iff_power nn) simp
  moreover from lo have "int (53 + s) \<le> bitlen n" by (simp only: bitlen_ge_iff_power nn) simp
  ultimately have "bitlen n = int (53 + s)" by simp
  then show ?thesis by (simp add: ulpShift_def n_def)
qed

lemma toDouble_binade:
  assumes "2 ^ k \<le> \<bar>z\<bar>" "\<bar>z\<bar> < 2 * 2 ^ k" "k \<le> 52"
  shows "toDouble z = of_int (roundTiesToEven (z * 2 ^ (52 - k))) / 2 ^ (52 - k)"
proof -
  define s where "s = 1022 + k"
  have e: "emin = s + (52 - k)" "52 + s = k + emin" "53 + s = Suc k + emin"
    using assms(3) by (simp_all add: emin_def s_def)
  have "(2::real) ^ (52 + s) = 2 ^ k * 2 ^ emin" by (simp only: e power_add)
  also have "\<dots> \<le> \<bar>z\<bar> * 2 ^ emin" using assms(1) by simp
  finally have lo: "2 ^ (52 + s) \<le> \<bar>z\<bar> * 2 ^ emin" .
  have "\<bar>z\<bar> * 2 ^ emin < (2 * 2 ^ k) * 2 ^ emin" using assms(2) by simp
  also have "\<dots> = 2 ^ (53 + s)" by (simp only: e power_add power_Suc)
  finally have hi: "\<bar>z\<bar> * 2 ^ emin < 2 ^ (53 + s)" .
  from lo hi have u: "ulpShift z = s" by (rule ulpShift_binade)
  have p: "(2::real) ^ emin = 2 ^ s * 2 ^ (52 - k)" by (subst e(1)) (simp only: power_add)
  show ?thesis unfolding toDouble_def u p by simp
qed

lemma isDouble_dyadic:
  assumes "\<bar>M\<bar> < 2 ^ 53" "k \<le> emin"
  shows "isDouble (of_int M / 2 ^ k)"
proof -
  from assms(2) obtain j where j: "emin = k + j" by (auto simp: le_iff_add)
  have "real_of_int M / 2 ^ k * 2 ^ emin = of_int M * 2 ^ j" by (simp add: j power_add)
  then have "toDouble (of_int M / 2 ^ k) = of_int M / 2 ^ k" using assms(1) by (rule toDouble_grid)
  moreover have "\<bar>real_of_int M / 2 ^ k\<bar> < 2 ^ 1024"
  proof -
    have "\<bar>real_of_int M / 2 ^ k\<bar> \<le> \<bar>real_of_int M\<bar>"
      by (simp add: abs_divide divide_le_eq_1 mult_le_cancel_left1 field_simps)
    also have "\<dots> < 2 ^ 53" using assms(1) by (simp flip: of_int_abs)
    also have "\<dots> < (2::real) ^ 1024" by simp
    finally show ?thesis .
  qed
  ultimately show ?thesis by (simp add: isDouble_def)
qed

lemma toDouble_numeral: "numeral w < (2::int) ^ 53 \<Longrightarrow> toDouble (numeral w) = numeral w"
  using toDouble_of_int [of "numeral w"] by simp

lemma toDouble_neg_numeral:
  "numeral w < (2::int) ^ 53 \<Longrightarrow> toDouble (- numeral w) = - numeral w"
  using toDouble_of_int [of "- numeral w"] by simp

lemma toDouble_one: "toDouble 1 = 1"
  using toDouble_of_int [of 1] by simp


section \<open>Normalisation\<close>

lemma js_trunc_nonneg: "0 \<le> q \<Longrightarrow> js_trunc q = \<lfloor>q\<rfloor>"
  by (simp add: js_trunc_def)

lemma js_trunc_neg: "q < 0 \<Longrightarrow> js_trunc q = \<lceil>q\<rceil>"
  by (simp add: js_trunc_def ceiling_def)

lemma floor360_bounds:
  "360 * of_int \<lfloor>x / 360\<rfloor> \<le> (x::real) \<and> x < 360 * of_int \<lfloor>x / 360\<rfloor> + 360"
proof -
  define q where "q = \<lfloor>x / 360\<rfloor>"
  have "of_int q \<le> x / 360" "x / 360 < of_int q + 1"
    unfolding q_def by linarith+
  then have "360 * of_int q \<le> x" "x < 360 * (of_int q + 1)"
    by (simp_all add: le_divide_eq divide_less_eq mult.commute)
  then show ?thesis unfolding q_def by (simp add: algebra_simps)
qed

text \<open>
  On a non-negative angle the function takes no sum and returns the exact remainder;
  on a negative one it returns the exact normalised angle rounded to a double.
\<close>

lemma normalizeRotation_nonneg:
  assumes "0 \<le> x"
  shows "normalizeRotation x = x - 360 * of_int \<lfloor>x / 360\<rfloor>"
proof -
  from assms have t: "js_trunc (x / 360) = \<lfloor>x / 360\<rfloor>" by (simp add: js_trunc_nonneg)
  have "0 \<le> x - 360 * of_int \<lfloor>x / 360\<rfloor>" using floor360_bounds [of x] by simp
  then show ?thesis by (simp add: normalizeRotation_def js_rem_def t)
qed

lemma normalizeRotation_neg:
  assumes "x < 0"
  shows "normalizeRotation x = toDouble (x - 360 * of_int \<lfloor>x / 360\<rfloor>)"
proof -
  from assms have "x / 360 < 0" by simp
  then have t: "js_trunc (x / 360) = \<lceil>x / 360\<rceil>" by (rule js_trunc_neg)
  show ?thesis
  proof (cases "x / 360 = of_int \<lfloor>x / 360\<rfloor>")
    case True
    then have c: "\<lceil>x / 360\<rceil> = \<lfloor>x / 360\<rfloor>" by (simp add: ceiling_altdef)
    from True have "x - 360 * of_int \<lfloor>x / 360\<rfloor> = 0" by simp
    then show ?thesis by (simp add: normalizeRotation_def js_rem_def t c toDouble_zero)
  next
    case False
    then have c: "\<lceil>x / 360\<rceil> = \<lfloor>x / 360\<rfloor> + 1" by (simp add: ceiling_altdef)
    have n: "x - 360 * of_int (\<lfloor>x / 360\<rfloor> + 1) < 0" using floor360_bounds [of x] by simp
    have "x - 360 * of_int (\<lfloor>x / 360\<rfloor> + 1) + 360 = x - 360 * of_int \<lfloor>x / 360\<rfloor>"
      by (simp add: algebra_simps)
    with n show ?thesis by (simp add: normalizeRotation_def js_rem_def js_add_def t c)
  qed
qed

lemmas normalizeRotation_eval = normalizeRotation_def js_rem_def js_trunc_def js_add_def
  js_sub_def toDouble_zero toDouble_one toDouble_numeral toDouble_neg_numeral

section \<open>The listeners follow the dragging state\<close>

lemma cleanup_own: "cleanup sc (dragListeners sc) = []"
  by (simp add: cleanup_def dragListeners_def removeEventListener_def)

lemma cleanup_none: "cleanup sc [] = []"
  by (simp add: cleanup_def dragListeners_def removeEventListener_def)

lemma effect_dragging: "isDragging sc \<Longrightarrow> effect sc [] = (dragListeners sc, Some sc)"
  by (simp add: effect_def dragListeners_def addEventListener_def)

lemma effect_idle: "\<not> isDragging sc \<Longrightarrow> effect sc doc = (doc, None)"
  by (simp add: effect_def)

lemma dispatch_empty: "dispatchEvent ev [] = ([], noEffects)"
  by (simp add: dispatchEvent_def noEffects_def)

lemma dispatch_mousemove:
  "dispatchEvent (MouseMove e) (dragListeners sc) =
     ([], \<lparr>preventDefault = False, onChange = handleMouseMove sc e\<rparr>)"
  by (simp add: dispatchEvent_def dragListeners_def)

lemma dispatch_touchmove:
  "dispatchEvent (TouchMove e) (dragListeners sc) = ([], handleTouchMove sc e)"
  by (simp add: dispatchEvent_def dragListeners_def)

lemma dispatch_mouseup:
  "dispatchEvent MouseUp (dragListeners sc) = ([SetIsDragging False], noEffects)"
  by (simp add: dispatchEvent_def dragListeners_def handleMouseUp_def noEffects_def)

lemma dispatch_touchend:
  "dispatchEvent TouchEnd (dragListeners sc) = ([SetIsDragging False], noEffects)"
  by (simp add: dispatchEvent_def dragListeners_def handleTouchEnd_def noEffects_def)

lemma consistent_mount: "consistent (mount r)"
  by (simp add: consistent_def mount_def)

lemma commit_nothing: "commit [] c = c"
  by (simp add: commit_def)

lemma commit_start:
  assumes "mounted c" and "consistent c"
  shows "commit [SetIsDragging True, SetDragStart d] c =
           c\<lparr>scope := (scope c)\<lparr>isDragging := True, dragStart := d\<rparr>,
             document := dragListeners ((scope c)\<lparr>isDragging := True, dragStart := d\<rparr>),
             pendingCleanup := Some ((scope c)\<lparr>isDragging := True, dragStart := d\<rparr>)\<rparr>"
proof (cases "isDragging (scope c)")
  case True
  with assms obtain old where "pendingCleanup c = Some old" "document c = dragListeners old"
    by (auto simp: consistent_def split: option.splits)
  then show ?thesis
    using assms(1) by (simp add: commit_def Let_def cleanup_own effect_dragging)
next
  case False
  with assms have "pendingCleanup c = None" "document c = []"
    by (simp_all add: consistent_def)
  then show ?thesis
    using assms(1) by (simp add: commit_def Let_def effect_dragging)
qed

lemma commit_stop:
  assumes "mounted c" and "consistent c" and "isDragging (scope c)"
  shows "commit [SetIsDragging False] c =
           c\<lparr>scope := (scope c)\<lparr>isDragging := False\<rparr>, document := [], pendingCleanup := None\<rparr>"
proof -
  from assms obtain old where "pendingCleanup c = Some old" "document c = dragListeners old"
    by (auto simp: consistent_def split: option.splits)
  then show ?thesis
    using assms by (simp add: commit_def Let_def cleanup_own effect_idle)
qed

lemma consistent_commit_start:
  "mounted c \<Longrightarrow> consistent c \<Longrightarrow> consistent (commit [SetIsDragging True, SetDragStart d] c)"
  by (simp add: commit_start) (simp add: consistent_def)

lemma consistent_commit_stop:
  "mounted c \<Longrightarrow> consistent c \<Longrightarrow> isDragging (scope c) \<Longrightarrow> consistent (commit [SetIsDragging False] c)"
  by (simp add: commit_stop) (simp add: consistent_def)

lemma consistent_unmount: "consistent c \<Longrightarrow> consistent (fst (step Unmount c))"
  by (auto simp: consistent_def cleanup_own split: option.splits if_splits)

lemma consistent_setRotation: "consistent c \<Longrightarrow> consistent (fst (step (SetRotation r) c))"
  by (auto simp: consistent_def split: option.splits if_splits)

lemma consistent_touchStart: 
  assumes "consistent c" shows "consistent (fst (step (TouchStart e) c))"
proof (cases "mounted c")
  case True
  show ?thesis
  proof (cases "\<exists>t. touches e = [t]")
    case True
    then obtain t where "touches e = [t]" by blast
    then show ?thesis using assms \<open>mounted c\<close>
      by (simp add: handleTouchStart_def consistent_commit_start)
  next
    case False
    then have "handleTouchStart (scope c) e = []"
      by (auto simp: handleTouchStart_def split: list.splits)
    then show ?thesis using assms by (simp add: commit_nothing)
  qed
next
  case False
  then show ?thesis using assms by simp
qed

lemma consistent_document:
  assumes "consistent c" shows "consistent (fst (step (Document ev) c))"
proof (cases "mounted c \<and> isDragging (scope c)")
  case True
  with assms obtain old where old: "pendingCleanup c = Some old" "document c = dragListeners old"
    by (auto simp: consistent_def split: option.splits)
  show ?thesis
  proof (cases ev)
    case (MouseMove e)
    then show ?thesis using assms old by (simp add: dispatch_mousemove commit_nothing)
  next
    case MouseUp
    then show ?thesis using assms old True by (simp add: dispatch_mouseup consistent_commit_stop)
  next
    case (TouchMove e)
    then show ?thesis using assms old by (simp add: dispatch_touchmove commit_nothing)
  next
    case TouchEnd
    then show ?thesis using assms old True by (simp add: dispatch_touchend consistent_commit_stop)
  qed
next
  case False
  with assms have "document c = []" by (auto simp: consistent_def)
  then show ?thesis using assms by (simp add: dispatch_empty commit_nothing)
qed

lemma consistent_step: 
  assumes "consistent c" shows "consistent (fst (step ev c))"
proof (cases ev)
  case (MouseDown e)
  then show ?thesis using assms by (simp add: handleMouseDown_def consistent_commit_start)
next
  case (TouchStart e)
  then show ?thesis using assms consistent_touchStart by simp
next
  case (Document d)
  then show ?thesis using assms consistent_document by simp
next
  case (SetRotation r)
  then show ?thesis using assms consistent_setRotation by simp
next
  case Unmount
  then show ?thesis using assms consistent_unmount by simp
qed (use assms in simp_all)

lemma consistent_run: "consistent c \<Longrightarrow> consistent (fst (run evs c))"
proof (induction evs arbitrary: c)
  case Nil
  then show ?case by simp
next
  case (Cons ev evs)
  from Cons.prems have "consistent (fst (step ev c))" by (rule consistent_step)
  then have "consistent (fst (run evs (fst (step ev c))))" by (rule Cons.IH)
  then show ?case by (simp add: split_beta)
qed

lemma consistent_reachable: "consistent (fst (run evs (mount r)))"
  by (rule consistent_run) (rule consistent_mount)

lemma run_append: "fst (run (evs @ evs') c) = fst (run evs' (fst (run evs c)))"
  by (induction evs arbitrary: c) (simp_all add: split_beta)

section \<open>Drag sessions\<close>

lemma inDrag_document:
  assumes "inDrag c x0 r0"
  obtains sc where "document c = dragListeners sc" "pendingCleanup c = Some sc" "isDragging sc"
    "startX (dragStart sc) = x0" "startRotation (dragStart sc) = r0"
  using assms by (auto simp: inDrag_def consistent_def split: option.splits)

lemma inDrag_start:
  assumes "consistent c" "mounted c" "gestureStart ev = Some x0"
  shows "inDrag (fst (step ev c)) x0 (rotation (scope c))"
proof (cases ev)
  case (MouseDown e)
  with assms have "x0 = MouseEvent.clientX e" by simp
  with assms MouseDown show ?thesis
    by (simp add: inDrag_def handleMouseDown_def consistent_commit_start) (simp add: commit_start)
next
  case (TouchStart e)
  with assms obtain t where "touches e = [t]" "x0 = Touch.clientX t"
    by (auto split: list.splits)
  with assms TouchStart show ?thesis
    by (simp add: inDrag_def handleTouchStart_def consistent_commit_start) (simp add: commit_start)
qed (use assms in simp_all)

lemma handleTouchStart_ignored:
  "length (touches e) \<noteq> 1 \<Longrightarrow> handleTouchStart sc e = []"
  by (cases "touches e" rule: list.exhaust [case_names Nil Cons])
    (auto simp: handleTouchStart_def split: list.splits)

lemma inDrag_step:
  assumes "inDrag c x0 r0" "\<not> startsDrag ev" "\<not> endsDrag ev"
  shows "inDrag (fst (step ev c)) x0 r0"
proof -
  from assms(1) obtain sc where sc: "document c = dragListeners sc"
    by (rule inDrag_document)
  show ?thesis
  proof (cases ev)
    case (TouchStart e)
    with assms(2) have "handleTouchStart (scope c) e = []"
      by (simp add: handleTouchStart_ignored)
    with TouchStart assms(1) show ?thesis by (simp add: commit_nothing)
  next
    case (Document d)
    with assms(2,3) consider e where "d = MouseMove e" | e where "d = TouchMove e"
      by (cases d) auto
    then show ?thesis
    proof cases
      case 1
      with Document sc assms(1) show ?thesis by (simp add: dispatch_mousemove commit_nothing)
    next
      case 2
      with Document sc assms(1) show ?thesis by (simp add: dispatch_touchmove commit_nothing)
    qed
  next
    case (SetRotation r)
    with assms(1) show ?thesis
      by (auto simp: inDrag_def consistent_def split: option.splits)
  qed (use assms in \<open>simp_all add: inDrag_def\<close>)
qed

lemma inDrag_run:
  "inDrag c x0 r0 \<Longrightarrow> list_all (\<lambda>ev. \<not> startsDrag ev \<and> \<not> endsDrag ev) evs \<Longrightarrow>
   inDrag (fst (run evs c)) x0 r0"
proof (induction evs arbitrary: c)
  case Nil
  then show ?case by simp
next
  case (Cons ev evs)
  then have "inDrag (fst (step ev c)) x0 r0" by (simp add: inDrag_step)
  with Cons have "inDrag (fst (run evs (fst (step ev c)))) x0 r0" by simp
  then show ?case by (simp add: split_beta)
qed

lemma inDrag_move:
  assumes "inDrag c x0 r0" "pointerX mv = Some x1"
  shows "snd (step (Document mv) c) =
           \<lparr>preventDefault = (\<exists>e. mv = TouchMove e),
            onChange = [normalizeRotation (js_add r0 (js_sub x1 x0))]\<rparr>"
proof -
  from assms(1) obtain sc where sc: "document c = dragListeners sc" "isDragging sc"
    "startX (dragStart sc) = x0" "startRotation (dragStart sc) = r0"
    by (rule inDrag_document)
  show ?thesis
  proof (cases mv)
    case (MouseMove e)
    with assms sc show ?thesis
      by (simp add: dispatch_mousemove handleMouseMove_def)
  next
    case (TouchMove e)
    with assms obtain t where "touches e = [t]" "x1 = Touch.clientX t"
      by (auto split: list.splits)
    with TouchMove sc show ?thesis
      by (simp add: dispatch_touchmove handleTouchMove_def)
  qed (use assms in simp_all)
qed

lemma idle_end:
  assumes "consistent c" "endsDrag ev"
  shows "idle (fst (step ev c))"
proof -
  have c': "consistent (fst (step ev c))" using assms(1) by (rule consistent_step)
  show ?thesis
  proof (cases "mounted c \<and> isDragging (scope c)")
    case True
    with assms(1) obtain sc where sc: "document c = dragListeners sc"
      by (auto simp: consistent_def split: option.splits)
    from assms(2) consider "ev = Document MouseUp" | "ev = Document TouchEnd" | "ev = Unmount"
      by (cases ev rule: endsDrag.cases) auto
    then show ?thesis
    proof cases
      case 1
      with c' sc True assms(1) show ?thesis
        by (simp add: idle_def dispatch_mouseup commit_stop)
    next
      case 2
      with c' sc True assms(1) show ?thesis
        by (simp add: idle_def dispatch_touchend commit_stop)
    next
      case 3
      with c' show ?thesis by (simp add: idle_def)
    qed
  next
    case False
    with assms(1) have doc: "document c = []" by (auto simp: consistent_def)
    from assms(2) consider "ev = Document MouseUp" | "ev = Document TouchEnd" | "ev = Unmount"
      by (cases ev rule: endsDrag.cases) auto
    then show ?thesis
    proof cases
      case 1
      with c' doc False show ?thesis by (auto simp: idle_def dispatch_empty commit_nothing)
    next
      case 2
      with c' doc False show ?thesis by (auto simp: idle_def dispatch_empty commit_nothing)
    next
      case 3
      with c' show ?thesis by (simp add: idle_def)
    qed
  qed
qed

lemma idle_document: "idle c \<Longrightarrow> document c = []"
  by (auto simp: idle_def consistent_def)

lemma idle_step:
  assumes "idle c" "\<not> startsDrag ev"
  shows "idle (fst (step ev c))"
proof -
  from assms(1) have c: "consistent c" and doc: "document c = []"
    by (simp_all add: idle_def idle_document)
  have c': "consistent (fst (step ev c))" using c by (rule consistent_step)
  show ?thesis
  proof (cases ev)
    case (TouchStart e)
    with assms(2) have "handleTouchStart (scope c) e = []"
      by (simp add: handleTouchStart_ignored)
    with TouchStart assms(1) show ?thesis by (simp add: commit_nothing)
  next
    case (Document d)
    with assms(1) doc show ?thesis by (simp add: dispatch_empty commit_nothing)
  qed (use assms c' in \<open>auto simp: idle_def\<close>)
qed

lemma idle_run:
  "idle c \<Longrightarrow> list_all (\<lambda>ev. \<not> startsDrag ev) evs \<Longrightarrow> idle (fst (run evs c))"
proof (induction evs arbitrary: c)
  case Nil
  then show ?case by simp
next
  case (Cons ev evs)
  then have "idle (fst (step ev c))" by (simp add: idle_step)
  with Cons have "idle (fst (run evs (fst (step ev c))))" by simp
  then show ?case by (simp add: split_beta)
qed

lemma idle_silent: "idle c \<Longrightarrow> snd (step (Document d) c) = noEffects"
  by (simp add: idle_document dispatch_empty)

section \<open>Reading a typed number\<close>






lemma parseInt_trimmed:
  "parseInt s =
     (let S = dropWhile isWhiteSpace s;
          sign = (if S \<noteq> [] \<and> hd S = CHR ''-'' then - 1 else 1);
          S = unsignedText S;
          stripPrefix = (take 2 S = ''0x'' \<or> take 2 S = ''0X'');
          Z = takeWhile (isRadixDigit (if stripPrefix then 16 else 10))
                (if stripPrefix then drop 2 S else S)
      in if Z = [] then None
         else Some (sign * int (mathInt (if stripPrefix then 16 else 10) Z)))"
proof -
  have "(if S \<noteq> [] \<and> (hd S = CHR ''+'' \<or> hd S = CHR ''-'') then tl S else S) = unsignedText S"
    for S by (cases S) auto
  then show ?thesis by (simp add: parseInt_def Let_def)
qed



section \<open>Normalised angles\<close>

lemma normalizeRotation_exact:
  "normalizeRotation x =
     (if x < 0 then toDouble (x - 360 * of_int \<lfloor>x / 360\<rfloor>)
      else x - 360 * of_int \<lfloor>x / 360\<rfloor>)"
  by (simp add: normalizeRotation_nonneg normalizeRotation_neg)

text \<open>
  C6: the values \<open>normalizeRotation (-10) = 350\<close>, \<open>normalizeRotation 370 = 10\<close>,
  \<open>normalizeRotation 0 = 0\<close> and \<open>normalizeRotation 360 = 0\<close>.
\<close>

theorem normalizeRotation_values:
  "normalizeRotation (- 10) = 350 \<and> normalizeRotation 370 = 10 \<and>
   normalizeRotation 0 = 0 \<and> normalizeRotation 360 = 0"
  by (simp add: normalizeRotation_eval)

text \<open>
  Just below 360 the doubles are \<open>2\<close> to the power \<open>-44\<close> apart, and a real close
  enough to 360 rounds to it.
\<close>

lemma below_360_rounds_up:
  assumes "0 < d" "d \<le> 1 / 2 ^ 46"
  shows "toDouble (360 - d) = 360"
proof -
  have b: "2 ^ 8 \<le> \<bar>360 - d\<bar>" "\<bar>360 - d\<bar> < 2 * 2 ^ 8" using assms by simp_all
  have "d * 2 ^ 44 \<le> 1 / 2 ^ 46 * 2 ^ 44" using assms(2) by (intro mult_right_mono) simp_all
  then have s: "d * 2 ^ 44 \<le> 1 / 4" by simp
  have p: "0 < d * 2 ^ 44" using assms(1) by simp
  have f: "\<lfloor>(360 - d) * 2 ^ 44\<rfloor> = 360 * 2 ^ 44 - 1"
    using s p by (simp add: floor_unique algebra_simps)
  have "roundTiesToEven ((360 - d) * 2 ^ 44) = 360 * 2 ^ 44"
    unfolding roundTiesToEven_def Let_def f using s p by (simp add: algebra_simps)
  then show ?thesis by (simp add: toDouble_binade [where k = 8, OF b])
qed

lemmas run_eval = mount_def commit_def handleMouseDown_def handleTouchStart_def effect_def
  cleanup_def dragListeners_def addEventListener_def removeEventListener_def dispatchEvent_def
  handleMouseMove_def handleTouchMove_def handleMouseUp_def handleTouchEnd_def noEffects_def
  Let_def

lemma drag_once:
  "onChange (snd (step (Document (MouseMove \<lparr>clientX = x1, clientY = y1\<rparr>))
     (fst (run [MouseDown \<lparr>clientX = x0, clientY = y0\<rparr>] (mount r))))) =
   [normalizeRotation (js_add r (js_sub x1 x0))]"
  by (simp add: run_eval)

text \<open>
  C1: \<open>normalizeRotation\<close> is to return a value in \<open>[0, 360)\<close> for every angle.  It
  does not: for a negative angle of tiny magnitude the sum of the remainder and 360
  rounds to 360, which is returned.  So it is for the double \<open>-2\<close> to the power \<open>-70\<close>,
  and so in a drag that starts at rotation 0.3 with the pointer at the next double
  above and moves the pointer to 0: it reports 360.
\<close>

theorem normalizeRotation_returns_360:
  "isDouble (- (1 / 2 ^ 70)) \<and> normalizeRotation (- (1 / 2 ^ 70)) = 360 \<and>
   isDouble (5404319552844595 / 2 ^ 54) \<and> isDouble (5404319552844596 / 2 ^ 54) \<and>
   onChange (snd (step (Document (MouseMove \<lparr>clientX = 0, clientY = 0\<rparr>))
     (fst (run [MouseDown \<lparr>clientX = 5404319552844596 / 2 ^ 54, clientY = 0\<rparr>]
        (mount (5404319552844595 / 2 ^ 54)))))) = [360]"
proof (intro conjI)
  show "isDouble (- (1 / 2 ^ 70))"
    using isDouble_dyadic [of "- 1" 70] by (simp add: emin_def)
  have "normalizeRotation (- (1 / 2 ^ 70)) = toDouble (360 - 1 / 2 ^ 70)"
    by (simp add: normalizeRotation_def js_rem_def js_trunc_def js_add_def)
  also have "\<dots> = 360" by (rule below_360_rounds_up) simp_all
  finally show "normalizeRotation (- (1 / 2 ^ 70)) = 360" .
  show a: "isDouble (5404319552844595 / 2 ^ 54)"
    using isDouble_dyadic [of 5404319552844595 54] by (simp add: emin_def)
  show b: "isDouble (5404319552844596 / 2 ^ 54)"
    using isDouble_dyadic [of 5404319552844596 54] by (simp add: emin_def)
  have d: "js_sub 0 (5404319552844596 / 2 ^ 54) = - (5404319552844596 / 2 ^ 54)"
    using isDouble_dyadic [of "- 5404319552844596" 54]
    by (simp add: emin_def isDouble_def js_sub_def)
  have e: "js_add (5404319552844595 / 2 ^ 54) (- (5404319552844596 / 2 ^ 54)) = - (1 / 2 ^ 54)"
    using isDouble_dyadic [of "- 1" 54] by (simp add: emin_def isDouble_def js_add_def)
  have "normalizeRotation (- (1 / 2 ^ 54)) = toDouble (360 - 1 / 2 ^ 54)"
    by (simp add: normalizeRotation_def js_rem_def js_trunc_def js_add_def)
  also have "\<dots> = 360" by (rule below_360_rounds_up) simp_all
  finally have n: "normalizeRotation (- (1 / 2 ^ 54)) = 360" .
  show "onChange (snd (step (Document (MouseMove \<lparr>clientX = 0, clientY = 0\<rparr>))
     (fst (run [MouseDown \<lparr>clientX = 5404319552844596 / 2 ^ 54, clientY = 0\<rparr>]
        (mount (5404319552844595 / 2 ^ 54)))))) = [360]"
    by (simp only: drag_once d e n)
qed

text \<open>
  C5 as stated fails where the shifted angle is rounded: for the double nearest to 0.1,
  the program's sum with 360 is another angle than the exact one, and the two
  normalised values differ.
\<close>

theorem normalizeRotation_rounded_sum:
  "isDouble (3602879701896397 / 2 ^ 55) \<and>
   normalizeRotation (3602879701896397 / 2 ^ 55) = 3602879701896397 / 2 ^ 55 \<and>
   normalizeRotation (js_add (3602879701896397 / 2 ^ 55) 360) = 1759218604442 / 2 ^ 44 \<and>
   normalizeRotation (js_add (3602879701896397 / 2 ^ 55) 360) \<noteq>
     normalizeRotation (3602879701896397 / 2 ^ 55)"
proof -
  have a: "isDouble (3602879701896397 / 2 ^ 55)"
    using isDouble_dyadic [of 3602879701896397 55] by (simp add: emin_def)
  have b: "normalizeRotation (3602879701896397 / 2 ^ 55) = 3602879701896397 / 2 ^ 55"
    by (simp add: normalizeRotation_def js_rem_def js_trunc_def)
  have c: "js_add (3602879701896397 / 2 ^ 55) 360 = 360 + 1759218604442 / 2 ^ 44"
    by (simp add: js_add_def toDouble_binade [where k = 8] roundTiesToEven_def)
  have d: "normalizeRotation (360 + 1759218604442 / 2 ^ 44) = 1759218604442 / 2 ^ 44"
    by (simp add: normalizeRotation_def js_rem_def js_trunc_def)
  have e: "(1759218604442 / 2 ^ 44 :: real) \<noteq> 3602879701896397 / 2 ^ 55" by simp
  show ?thesis by (simp only: a b c d e) simp
qed

text \<open>
  C5, as amended: \<open>normalizeRotation\<close> has period 360 on exact shifts: for every double
  \<open>x\<close> and every integer \<open>k\<close> such that \<open>x + 360 * k\<close> is a double as well,
  \<open>normalizeRotation (x + 360 * k) = normalizeRotation x\<close>.
\<close>

theorem normalizeRotation_periodic:
  assumes "isDouble x" and "isDouble (x + 360 * of_int k)"
  shows "normalizeRotation (x + 360 * of_int k) = normalizeRotation x"
proof -
  define y where "y = x + 360 * of_int k"
  define r where "r = x - 360 * of_int \<lfloor>x / 360\<rfloor>"
  have "y / 360 = x / 360 + of_int k" by (simp add: y_def)
  then have "\<lfloor>y / 360\<rfloor> = \<lfloor>x / 360\<rfloor> + k" by (simp only: floor_add_int)
  then have ry: "y - 360 * of_int \<lfloor>y / 360\<rfloor> = r" by (simp add: y_def r_def algebra_simps)
  have nx: "normalizeRotation x = (if x < 0 then toDouble r else r)"
    by (simp add: normalizeRotation_exact r_def)
  have ny: "normalizeRotation y = (if y < 0 then toDouble r else r)"
    by (simp add: normalizeRotation_exact ry)
  have "toDouble r = r" if "0 \<le> x \<or> 0 \<le> y"
  proof -
    from that consider "0 \<le> x" | "0 \<le> y" by blast
    then have "isDouble r"
    proof cases
      case 1
      with assms(1) show ?thesis unfolding r_def by (rule isDouble_rem360)
    next
      case 2
      from assms(2) have "isDouble y" by (simp add: y_def)
      then have "isDouble (y - 360 * of_int \<lfloor>y / 360\<rfloor>)" using 2 by (rule isDouble_rem360)
      then show ?thesis by (simp only: ry)
    qed
    then show ?thesis by (simp add: isDouble_def)
  qed
  then have "normalizeRotation y = normalizeRotation x" unfolding nx ny by auto
  then show ?thesis by (simp add: y_def)
qed

theorem normalizeRotation_periodic_witness:
  "isDouble (- 10) \<and> isDouble (- 10 + 360 * of_int 2) \<and>
   normalizeRotation (- 10 + 360 * of_int 2) = 350 \<and> normalizeRotation (- 10) = 350"
  using normalizeRotation_periodic [of "- 10" 2]
  by (simp add: isDouble_def normalizeRotation_eval)

section \<open>Buttons and arrow keys\<close>

text \<open>
  C4: for every current rotation \<open>r\<close>, the clockwise button and the right arrow key
  each report \<open>normalizeRotation (r + 15)\<close>, the counter-clockwise button and the left
  arrow key each report \<open>normalizeRotation (r - 15)\<close>, with the sum and the difference
  as the program takes them; the keys also suppress the browser's default, and the
  component's state is unchanged.  Incrementing 350 gives 5 and decrementing 5 gives 350.
\<close>

theorem step_buttons_and_arrows:
  assumes "mounted c"
  shows "step ClickClockwise c =
           (c, \<lparr>preventDefault = False,
               onChange = [normalizeRotation (js_add (rotation (scope c)) 15)]\<rparr>) \<and>
         step (KeyDown ''ArrowRight'') c =
           (c, \<lparr>preventDefault = True,
               onChange = [normalizeRotation (js_add (rotation (scope c)) 15)]\<rparr>) \<and>
         step ClickCounterClockwise c =
           (c, \<lparr>preventDefault = False,
               onChange = [normalizeRotation (js_sub (rotation (scope c)) 15)]\<rparr>) \<and>
         step (KeyDown ''ArrowLeft'') c =
           (c, \<lparr>preventDefault = True,
               onChange = [normalizeRotation (js_sub (rotation (scope c)) 15)]\<rparr>) \<and>
         normalizeRotation (js_add 350 15) = 5 \<and> normalizeRotation (js_sub 5 15) = 350"
  using assms
  by (simp add: onClickClockwise_def onClickCounterClockwise_def handleKeyDown_def
      normalizeRotation_eval)

theorem step_buttons_and_arrows_witness:
  "mounted (mount 350) \<and>
   onChange (snd (step ClickClockwise (mount 350))) = [5] \<and>
   onChange (snd (step (KeyDown ''ArrowRight'') (mount 350))) = [5] \<and>
   onChange (snd (step ClickCounterClockwise (mount 5))) = [350] \<and>
   onChange (snd (step (KeyDown ''ArrowLeft'') (mount 5))) = [350]"
  using step_buttons_and_arrows [of "mount 350"] step_buttons_and_arrows [of "mount 5"]
  by (simp add: mount_def normalizeRotation_eval)

section \<open>Dragging\<close>

text \<open>
  C2, as amended: once a gesture has started at coordinate \<open>x0\<close> on a mounted component
  whose rotation was \<open>r\<close>, and as long as no event starts or ends a drag, every
  pointer-move event and every touch-move event with exactly one active touch, at
  coordinate \<open>x1\<close>, reports exactly \<open>normalizeRotation (r + (x1 - x0))\<close>, with the sum
  and the difference as the program takes them: one degree per pixel of horizontal
  displacement from the baseline.
\<close>

theorem drag_move_reports:
  assumes "mounted (fst (run evs (mount r)))"
    and "gestureStart ev0 = Some x0"
    and "list_all (\<lambda>ev. \<not> startsDrag ev \<and> \<not> endsDrag ev) mid"
    and "pointerX mv = Some x1"
  shows "onChange (snd (step (Document mv) (fst (run (evs @ ev0 # mid) (mount r))))) =
           [normalizeRotation (js_add (rotation (scope (fst (run evs (mount r))))) (js_sub x1 x0))]"
proof -
  define c where "c = fst (run evs (mount r))"
  have "consistent c" unfolding c_def by (rule consistent_reachable)
  moreover have "mounted c" using assms(1) by (simp add: c_def)
  ultimately have "inDrag (fst (step ev0 c)) x0 (rotation (scope c))"
    using assms(2) by (rule inDrag_start)
  then have "inDrag (fst (run mid (fst (step ev0 c)))) x0 (rotation (scope c))"
    using assms(3) by (rule inDrag_run)
  moreover have "fst (run (evs @ ev0 # mid) (mount r)) = fst (run mid (fst (step ev0 c)))"
    by (simp add: run_append c_def split_beta)
  ultimately have "inDrag (fst (run (evs @ ev0 # mid) (mount r))) x0 (rotation (scope c))"
    by simp
  from inDrag_move [OF this assms(4)] show ?thesis by (simp add: c_def)
qed

text \<open>
  A drag from rotation 100 with the pointer moved by 30 pixels reports 130, also after
  the parent has rendered the component with a new rotation in between.
\<close>

theorem drag_move_reports_witness:
  "mounted (fst (run [] (mount 100))) \<and>
   gestureStart (MouseDown \<lparr>clientX = 200, clientY = 50\<rparr>) = Some 200 \<and>
   list_all (\<lambda>ev. \<not> startsDrag ev \<and> \<not> endsDrag ev) [SetRotation 110] \<and>
   pointerX (MouseMove \<lparr>clientX = 230, clientY = 80\<rparr>) = Some 230 \<and>
   onChange (snd (step (Document (MouseMove \<lparr>clientX = 230, clientY = 80\<rparr>))
     (fst (run ([] @ MouseDown \<lparr>clientX = 200, clientY = 50\<rparr> # [SetRotation 110]) (mount 100))))) =
     [130]"
  using drag_move_reports [of "[]" 100 "MouseDown \<lparr>clientX = 200, clientY = 50\<rparr>" 200
      "[SetRotation 110]" "MouseMove \<lparr>clientX = 230, clientY = 80\<rparr>" 230]
  by (simp add: mount_def normalizeRotation_eval)

text \<open>
  C2 as stated fails for a touch-move with two active touches during a drag: nothing is
  reported.
\<close>

theorem drag_touchmove_two_fingers:
  "onChange (snd (step (Document (TouchMove \<lparr>touches = [\<lparr>Touch.clientX = 230, clientY = 0\<rparr>,
                                                        \<lparr>Touch.clientX = 400, clientY = 0\<rparr>]\<rparr>))
     (fst (run [MouseDown \<lparr>clientX = 200, clientY = 0\<rparr>] (mount 100))))) = [] \<and>
   [] \<noteq> [normalizeRotation (js_add 100 (js_sub 230 200))]"
  by (simp add: run_eval)

lemma invoke_touchmove_multi:
  "length (touches e) \<noteq> 1 \<Longrightarrow> invoke h sc (TouchMove e) = ([], noEffects)"
  by (cases h) (simp_all add: handleTouchMove_def noEffects_def)

lemma dispatch_touchmove_multi:
  "length (touches e) \<noteq> 1 \<Longrightarrow> dispatchEvent (TouchMove e) doc = ([], noEffects)"
  by (induction doc) (simp_all add: dispatchEvent_def invoke_touchmove_multi noEffects_def)

text \<open>
  C7: a touch-move whose number of active touches is not exactly 1 changes nothing and
  reports nothing, whatever the state; a touch-move with one active touch during a drag
  calls \<open>preventDefault\<close> and reports one value; and the handler calls
  \<open>preventDefault\<close> exactly when it applies.
\<close>

theorem touchMove_single_finger_only:
  "(length (touches e) \<noteq> 1 \<longrightarrow>
      step (Document (TouchMove e)) c = (c, noEffects) \<and> onChange (handleTouchMove sc e) = []) \<and>
   (mounted (fst (run evs (mount r))) \<and> isDragging (scope (fst (run evs (mount r)))) \<and>
    length (touches e) = 1 \<longrightarrow>
      preventDefault (snd (step (Document (TouchMove e)) (fst (run evs (mount r))))) \<and>
      length (onChange (snd (step (Document (TouchMove e)) (fst (run evs (mount r)))))) = 1) \<and>
   (preventDefault (handleTouchMove sc e) \<longleftrightarrow> isDragging sc \<and> length (touches e) = 1)"
proof (intro conjI impI)
  assume "length (touches e) \<noteq> 1"
  then show "step (Document (TouchMove e)) c = (c, noEffects)"
    by (simp add: dispatch_touchmove_multi commit_nothing)
  from \<open>length (touches e) \<noteq> 1\<close> show "onChange (handleTouchMove sc e) = []"
    by (simp add: handleTouchMove_def)
next
  define d where "d = fst (run evs (mount r))"
  assume a: "mounted (fst (run evs (mount r))) \<and> isDragging (scope (fst (run evs (mount r)))) \<and>
    length (touches e) = 1"
  then obtain t where t: "touches e = [t]"
    by (cases "touches e") auto
  have "consistent d" unfolding d_def by (rule consistent_reachable)
  with a have "inDrag d (startX (dragStart (scope d))) (startRotation (dragStart (scope d)))"
    by (simp add: inDrag_def d_def)
  moreover have "pointerX (TouchMove e) = Some (Touch.clientX t)" using t by simp
  ultimately have m: "snd (step (Document (TouchMove e)) d) =
      \<lparr>preventDefault = (\<exists>e'. TouchMove e = TouchMove e'),
        onChange = [normalizeRotation (js_add (startRotation (dragStart (scope d)))
                      (js_sub (Touch.clientX t) (startX (dragStart (scope d)))))]\<rparr>"
    by (rule inDrag_move)
  from m show "preventDefault (snd (step (Document (TouchMove e)) (fst (run evs (mount r)))))"
    by (simp add: d_def)
  from m show "length (onChange (snd (step (Document (TouchMove e)) (fst (run evs (mount r)))))) = 1"
    by (simp add: d_def)
next
  show "preventDefault (handleTouchMove sc e) \<longleftrightarrow> isDragging sc \<and> length (touches e) = 1"
    by (simp add: handleTouchMove_def Let_def)
qed

theorem touchMove_single_finger_only_witness:
  "length (touches \<lparr>touches = [\<lparr>Touch.clientX = 230, clientY = 0\<rparr>,
                                  \<lparr>Touch.clientX = 400, clientY = 0\<rparr>]\<rparr>) \<noteq> 1 \<and>
   onChange (snd (step (Document (TouchMove \<lparr>touches = [\<lparr>Touch.clientX = 230, clientY = 0\<rparr>,
                                                        \<lparr>Touch.clientX = 400, clientY = 0\<rparr>]\<rparr>))
     (fst (run [MouseDown \<lparr>clientX = 200, clientY = 0\<rparr>] (mount 100))))) = [] \<and>
   mounted (fst (run [MouseDown \<lparr>clientX = 200, clientY = 0\<rparr>] (mount 100))) \<and>
   isDragging (scope (fst (run [MouseDown \<lparr>clientX = 200, clientY = 0\<rparr>] (mount 100)))) \<and>
   length (touches \<lparr>touches = [\<lparr>Touch.clientX = 230, clientY = 0\<rparr>]\<rparr>) = 1 \<and>
   preventDefault (snd (step (Document (TouchMove \<lparr>touches = [\<lparr>Touch.clientX = 230, clientY = 0\<rparr>]\<rparr>))
     (fst (run [MouseDown \<lparr>clientX = 200, clientY = 0\<rparr>] (mount 100)))))"
  using touchMove_single_finger_only
      [of "\<lparr>touches = [\<lparr>Touch.clientX = 230, clientY = 0\<rparr>, \<lparr>Touch.clientX = 400, clientY = 0\<rparr>]\<rparr>"
          "fst (run [MouseDown \<lparr>clientX = 200, clientY = 0\<rparr>] (mount 100))"]
    touchMove_single_finger_only
      [of "\<lparr>touches = [\<lparr>Touch.clientX = 230, clientY = 0\<rparr>]\<rparr>" _ _
          "[MouseDown \<lparr>clientX = 200, clientY = 0\<rparr>]" 100]
  by (simp add: mount_def handleMouseDown_def commit_def effect_def noEffects_def Let_def)

lemma pointer_move_keeps:
  "pointerX mv = Some x \<Longrightarrow> \<not> startsDrag (Document mv) \<and> \<not> endsDrag (Document mv)"
  by (cases mv) simp_all

text \<open>
  What a move reports in a session that started at \<open>x0\<close> on a mounted component whose
  rotation was that of the state reached by \<open>evs\<close>.
\<close>

lemma session_report:
  assumes "mounted (fst (run evs (mount r)))"
    and "gestureStart ev0 = Some x0"
    and "list_all (\<lambda>ev. \<not> startsDrag ev \<and> \<not> endsDrag ev) mid"
    and "pointerX mv = Some x1"
  shows "onChange (snd (step (Document mv) (fst (run (evs @ ev0 # mid) (mount r))))) =
           [normalizeRotation (js_add (rotation (scope (fst (run evs (mount r))))) (js_sub x1 x0))]"
proof -
  define c where "c = fst (run evs (mount r))"
  have "consistent c" unfolding c_def by (rule consistent_reachable)
  moreover have "mounted c" using assms(1) by (simp add: c_def)
  ultimately have "inDrag (fst (step ev0 c)) x0 (rotation (scope c))"
    using assms(2) by (rule inDrag_start)
  then have "inDrag (fst (run mid (fst (step ev0 c)))) x0 (rotation (scope c))"
    using assms(3) by (rule inDrag_run)
  moreover have "fst (run (evs @ ev0 # mid) (mount r)) = fst (run mid (fst (step ev0 c)))"
    by (simp add: run_append c_def split_beta)
  ultimately have "inDrag (fst (run (evs @ ev0 # mid) (mount r))) x0 (rotation (scope c))"
    by simp
  from inDrag_move [OF this assms(4)] show ?thesis by (simp add: c_def)
qed

text \<open>
  C9: the value reported during a drag does not depend on vertical movement.  In one
  drag session, two move events at the same \<open>clientX\<close>, the second one after the first
  and after whatever else the session went through in between, report the same
  rotation, whatever their \<open>clientY\<close>; and two sessions begun at the same \<open>clientX\<close>
  report the same rotation, whatever the \<open>clientY\<close> recorded at the start.
\<close>

theorem drag_session_ignores_vertical:
  assumes "mounted (fst (run evs (mount r)))"
    and "gestureStart ev0 = Some x0" and "gestureStart ev0' = Some x0"
    and "list_all (\<lambda>ev. \<not> startsDrag ev \<and> \<not> endsDrag ev) mid1"
    and "list_all (\<lambda>ev. \<not> startsDrag ev \<and> \<not> endsDrag ev) mid2"
    and "pointerX mv1 = Some x" and "pointerX mv2 = Some x"
  shows "onChange (snd (step (Document mv2)
             (fst (run (evs @ ev0 # mid1 @ Document mv1 # mid2) (mount r))))) =
         onChange (snd (step (Document mv1) (fst (run (evs @ ev0 # mid1) (mount r))))) \<and>
         onChange (snd (step (Document mv1) (fst (run (evs @ ev0' # mid1) (mount r))))) =
         onChange (snd (step (Document mv1) (fst (run (evs @ ev0 # mid1) (mount r)))))"
proof -
  from assms(6) have "\<not> startsDrag (Document mv1) \<and> \<not> endsDrag (Document mv1)"
    by (rule pointer_move_keeps)
  with assms(4,5)
  have mid: "list_all (\<lambda>ev. \<not> startsDrag ev \<and> \<not> endsDrag ev) (mid1 @ Document mv1 # mid2)"
    by simp
  note first = session_report [OF assms(1) assms(2) assms(4) assms(6)]
  note later = session_report [OF assms(1) assms(2) mid assms(7)]
  note other = session_report [OF assms(1) assms(3) assms(4) assms(6)]
  from first later other show ?thesis by simp
qed

theorem drag_session_ignores_vertical_witness:
  "mounted (fst (run [] (mount 100))) \<and>
   gestureStart (MouseDown \<lparr>clientX = 200, clientY = 50\<rparr>) = Some 200 \<and>
   gestureStart (MouseDown \<lparr>clientX = 200, clientY = 75\<rparr>) = Some 200 \<and>
   list_all (\<lambda>ev. \<not> startsDrag ev \<and> \<not> endsDrag ev) [] \<and>
   list_all (\<lambda>ev. \<not> startsDrag ev \<and> \<not> endsDrag ev) [SetRotation 130] \<and>
   pointerX (MouseMove \<lparr>clientX = 230, clientY = 10\<rparr>) = Some 230 \<and>
   pointerX (MouseMove \<lparr>clientX = 230, clientY = 90\<rparr>) = Some 230 \<and>
   onChange (snd (step (Document (MouseMove \<lparr>clientX = 230, clientY = 10\<rparr>))
     (fst (run ([] @ MouseDown \<lparr>clientX = 200, clientY = 50\<rparr> # []) (mount 100))))) = [130] \<and>
   onChange (snd (step (Document (MouseMove \<lparr>clientX = 230, clientY = 90\<rparr>))
     (fst (run ([] @ MouseDown \<lparr>clientX = 200, clientY = 50\<rparr> #
                 [] @ Document (MouseMove \<lparr>clientX = 230, clientY = 10\<rparr>) # [SetRotation 130])
            (mount 100))))) = [130] \<and>
   onChange (snd (step (Document (MouseMove \<lparr>clientX = 230, clientY = 10\<rparr>))
     (fst (run ([] @ MouseDown \<lparr>clientX = 200, clientY = 75\<rparr> # []) (mount 100))))) = [130]"
  using drag_session_ignores_vertical [of "[]" 100 "MouseDown \<lparr>clientX = 200, clientY = 50\<rparr>" 200
      "MouseDown \<lparr>clientX = 200, clientY = 75\<rparr>" "[]" "[SetRotation 130]"
      "MouseMove \<lparr>clientX = 230, clientY = 10\<rparr>" 230 "MouseMove \<lparr>clientX = 230, clientY = 90\<rparr>"]
  by (simp add: run_eval normalizeRotation_eval)


section \<open>Life cycle of the document listeners\<close>

text \<open>
  C8: in every state the component reaches, the four listeners are registered on the
  document exactly when it is mounted and dragging, and none otherwise.  Every exit from the
  dragging state, by pointer-up, touch-end or unmounting, leaves no listener registered,
  and as long as no new drag starts, a later pointer-move reports nothing.
\<close>

theorem listeners_while_dragging:
  "registrations (fst (run evs (mount r))) =
     (if mounted (fst (run evs (mount r))) \<and> isDragging (scope (fst (run evs (mount r))))
      then [(''mousemove'', HandleMouseMove), (''mouseup'', HandleMouseUp),
            (''touchmove'', HandleTouchMove), (''touchend'', HandleTouchEnd)]
      else []) \<and>
   (endsDrag ev \<and> list_all (\<lambda>ev'. \<not> startsDrag ev') later \<longrightarrow>
      registrations (fst (step ev (fst (run evs (mount r))))) = [] \<and>
      registrations (fst (run (evs @ ev # later) (mount r))) = [] \<and>
      snd (step (Document (MouseMove e)) (fst (run (evs @ ev # later) (mount r)))) = noEffects)"
proof (intro conjI impI)
  define c where "c = fst (run evs (mount r))"
  have c: "consistent c" unfolding c_def by (rule consistent_reachable)
  then show "registrations (fst (run evs (mount r))) =
     (if mounted (fst (run evs (mount r))) \<and> isDragging (scope (fst (run evs (mount r))))
      then [(''mousemove'', HandleMouseMove), (''mouseup'', HandleMouseUp),
            (''touchmove'', HandleTouchMove), (''touchend'', HandleTouchEnd)]
      else [])"
    unfolding c_def [symmetric]
    by (auto simp: consistent_def registrations_def dragListeners_def split: option.splits)
  assume a: "endsDrag ev \<and> list_all (\<lambda>ev'. \<not> startsDrag ev') later"
  with c have i: "idle (fst (step ev c))" by (simp add: idle_end)
  then show "registrations (fst (step ev (fst (run evs (mount r))))) = []"
    by (simp add: registrations_def idle_document c_def)
  from i a have "idle (fst (run later (fst (step ev c))))" by (simp add: idle_run)
  moreover have "fst (run (evs @ ev # later) (mount r)) = fst (run later (fst (step ev c)))"
    by (simp add: run_append c_def split_beta)
  ultimately have j: "idle (fst (run (evs @ ev # later) (mount r)))" by simp
  then show "registrations (fst (run (evs @ ev # later) (mount r))) = []"
    by (simp add: registrations_def idle_document)
  from j show "snd (step (Document (MouseMove e)) (fst (run (evs @ ev # later) (mount r)))) = noEffects"
    by (rule idle_silent)
qed

theorem listeners_while_dragging_witness:
  "registrations (fst (run [MouseDown \<lparr>clientX = 200, clientY = 0\<rparr>] (mount 100))) =
     [(''mousemove'', HandleMouseMove), (''mouseup'', HandleMouseUp),
      (''touchmove'', HandleTouchMove), (''touchend'', HandleTouchEnd)] \<and>
   endsDrag (Document MouseUp) \<and> list_all (\<lambda>ev'. \<not> startsDrag ev') [SetRotation 130] \<and>
   registrations (fst (run ([MouseDown \<lparr>clientX = 200, clientY = 0\<rparr>] @ Document MouseUp # [SetRotation 130])
      (mount 100))) = [] \<and>
   onChange (snd (step (Document (MouseMove \<lparr>clientX = 260, clientY = 0\<rparr>))
     (fst (run ([MouseDown \<lparr>clientX = 200, clientY = 0\<rparr>] @ Document MouseUp # [SetRotation 130])
        (mount 100))))) = []"
  using listeners_while_dragging [of "[MouseDown \<lparr>clientX = 200, clientY = 0\<rparr>]" 100
      "Document MouseUp" "[SetRotation 130]" "\<lparr>clientX = 260, clientY = 0\<rparr>"]
  by (simp add: mount_def handleMouseDown_def commit_def effect_def noEffects_def Let_def)

section \<open>Typed values\<close>

lemmas parse_eval = handleInputChange_def parseInt_def isWhiteSpace_def isRadixDigit_def
  digitValue_def mathInt_def

text \<open>
  C3: the typed text is parsed as an integer, a text that does not parse counting as 0;
  the absolute value, capped at 359, is reported, so the report lies in \<open>[0, 359]\<close>.
  Typing \<open>-20\<close> reports 20, where wrapping would give 340.  The component's state is
  unchanged.
\<close>

theorem handleInputChange_clamps:
  "handleInputChange v =
     [of_int (max 0 (min 359 \<bar>case parseInt v of None \<Rightarrow> 0 | Some n \<Rightarrow> n\<bar>))] \<and>
   (\<exists>n::int. 0 \<le> n \<and> n \<le> 359 \<and> handleInputChange v = [of_int n]) \<and>
   (parseInt v = None \<longrightarrow> handleInputChange v = [0]) \<and>
   handleInputChange ''-20'' = [20] \<and> normalizeRotation (- 20) = 340 \<and>
   (mounted c \<longrightarrow>
      step (InputChange v) c = (c, \<lparr>preventDefault = False, onChange = handleInputChange v\<rparr>))"
proof (intro conjI impI)
  show eq: "handleInputChange v =
     [of_int (max 0 (min 359 \<bar>case parseInt v of None \<Rightarrow> 0 | Some n \<Rightarrow> n\<bar>))]"
    by (simp add: handleInputChange_def split: option.splits)
  have "0 \<le> max 0 (min 359 \<bar>case parseInt v of None \<Rightarrow> 0 | Some n \<Rightarrow> n\<bar>)"
    "max 0 (min 359 \<bar>case parseInt v of None \<Rightarrow> 0 | Some n \<Rightarrow> n\<bar>) \<le> 359"
    by simp_all
  with eq show "\<exists>n::int. 0 \<le> n \<and> n \<le> 359 \<and> handleInputChange v = [of_int n]"
    by blast
  show "handleInputChange ''-20'' = [20]" by (simp add: parse_eval)
  show "normalizeRotation (- 20) = 340" by (simp add: normalizeRotation_eval)
next
  assume "parseInt v = None"
  then show "handleInputChange v = [0]" by (simp add: handleInputChange_def)
next
  assume "mounted c"
  then show "step (InputChange v) c =
    (c, \<lparr>preventDefault = False, onChange = handleInputChange v\<rparr>)" by simp
qed

theorem handleInputChange_clamps_witness:
  "parseInt ''abc'' = None \<and> handleInputChange ''abc'' = [0] \<and> mounted (mount 0) \<and>
   onChange (snd (step (InputChange ''abc'') (mount 0))) = [0] \<and>
   handleInputChange ''400'' = [359]"
  using handleInputChange_clamps [of "''abc''" "mount 0"] handleInputChange_clamps [of "''400''"]
  by (simp add: mount_def parseInt_def isWhiteSpace_def isRadixDigit_def digitValue_def mathInt_def)







lemma radix16_digit: "isRadixDigit 16 c = isHexDigit c"
  by (auto simp: isRadixDigit_def digitValue_def isHexDigit_def isDecimalDigit_def Let_def)

lemma takeWhile_leadingHexDigits: "takeWhile (isRadixDigit 16) s = leadingHexDigits s"
  by (induction s) (simp_all add: radix16_digit)

lemma leadingHexDigits_digits: "c \<in> set (leadingHexDigits s) \<Longrightarrow> isHexDigit c"
  by (induction s) (auto split: if_splits)

lemma foldl_hexadecimal:
  "\<forall>c\<in>set hs. isHexDigit c \<Longrightarrow>
   foldl (\<lambda>acc c. acc * 16 + (case digitValue c of Some v \<Rightarrow> v | None \<Rightarrow> 0)) n hs =
     hexadecimalValue n hs"
proof (induction hs arbitrary: n)
  case Nil
  then show ?case by simp
next
  case (Cons c hs)
  then have "isHexDigit c" by simp
  then have "digitValue c = Some (hexDigitValue c)"
    by (auto simp: digitValue_def hexDigitValue_def isHexDigit_def isDecimalDigit_def)
  with Cons show ?case by (simp add: mult.commute)
qed

lemma mathInt_hexadecimal:
  "mathInt 16 (leadingHexDigits s) = hexadecimalValue 0 (leadingHexDigits s)"
  unfolding mathInt_def by (rule foldl_hexadecimal) (simp add: leadingHexDigits_digits)

text \<open>
  A text that continues with the hexadecimal mark is read in base 16 (so \<open>0x1F\<close>
  reports 31); no input of type \<open>number\<close> delivers such a text.
\<close>

lemma parseInt_hexadecimal:
  assumes "hexPrefixed v"
  shows "parseInt v = hexadecimalPrefix (dropWhile isWhiteSpace v)"
proof -
  define S where "S = dropWhile isWhiteSpace v"
  from assms have hex: "take 2 (unsignedText S) = ''0x'' \<or> take 2 (unsignedText S) = ''0X''"
    by (simp add: hexPrefixed_def S_def Let_def)
  have sign: "(S \<noteq> [] \<and> hd S = CHR ''-'') = startsWith (\<lambda>c. c = CHR ''-'') S"
    by (cases S) simp_all
  show ?thesis
    unfolding parseInt_trimmed Let_def S_def [symmetric] hexadecimalPrefix_def
    using hex by (simp add: takeWhile_leadingHexDigits mathInt_hexadecimal sign)
qed

lemma hexadecimal_text: "handleInputChange ''0x1F'' = [31]"
  by (simp add: parse_eval)





end
